theory Spec2Isabelle
  imports Main
begin

section \<open>Strings and character classes\<close>

text \<open>
  A JavaScript string is a sequence of UTF-16 code units; a code unit is modelled as an
  integer. \<open>str\<close> embeds a literal of the source.
\<close>

type_synonym jsstring = "int list"

definition str :: "string \<Rightarrow> jsstring" where
  "str cs = map of_char cs"

text \<open>A character class is a list of inclusive code-unit ranges.\<close>

type_synonym cclass = "(int \<times> int) list"

definition in_class :: "int \<Rightarrow> cclass \<Rightarrow> bool" where
  "in_class c rs = list_ex (\<lambda>(lo, hi). lo \<le> c \<and> c \<le> hi) rs"

definition chars :: "string \<Rightarrow> cclass" where
  "chars cs = map (\<lambda>c. (of_char c, of_char c)) cs"

definition upper :: cclass where "upper = [(65, 90)]"
definition lower :: cclass where "lower = [(97, 122)]"
definition digit :: cclass where "digit = [(48, 57)]"
definition alpha :: cclass where "alpha = upper @ lower"
definition alnum :: cclass where "alnum = upper @ lower @ digit"

text \<open>\<open>\w\<close>: the word characters that \<open>\b\<close> looks at.\<close>

definition wordchar :: cclass where
  "wordchar = lower @ upper @ digit @ chars ''_''"

text \<open>
  \<open>\s\<close>: WhiteSpace and LineTerminator of ECMAScript (TAB, LF, VT, FF, CR, SP, NBSP,
  U+1680, U+2000 to U+200A, U+2028, U+2029, U+202F, U+205F, U+3000, U+FEFF).
\<close>

definition whitespace :: cclass where
  "whitespace = [(9, 13), (32, 32), (160, 160), (5760, 5760), (8192, 8202), (8232, 8233),
                 (8239, 8239), (8287, 8287), (12288, 12288), (65279, 65279)]"

section \<open>Regular expressions and the backtracking matcher\<close>

text \<open>
  The fragment of ECMAScript patterns that the catalog uses: character classes, \<open>\b\<close>,
  sequence, alternation and greedy quantifiers \<open>{min,max}\<close> (\<open>None\<close> for no upper bound).
  Capture groups do not influence which substring matches and are not represented.
\<close>

datatype regex =
    Empty
  | Class cclass
  | WordBoundary
  | Seq regex regex
  | Alt regex regex
  | Repeat nat "nat option" regex

fun seqs :: "regex list \<Rightarrow> regex" where
  "seqs [] = Empty"
| "seqs (r # rs) = Seq r (seqs rs)"

fun alts :: "regex list \<Rightarrow> regex" where
  "alts [] = Class []"
| "alts [r] = r"
| "alts (r # rs) = Alt r (alts rs)"

definition lit :: "string \<Rightarrow> regex" where
  "lit cs = seqs (map (\<lambda>c. Class [(of_char c, of_char c)]) cs)"

text \<open>The quantifiers \<open>?\<close>, \<open>*\<close>, \<open>+\<close> and \<open>{n}\<close>.\<close>

definition ropt :: "regex \<Rightarrow> regex" where "ropt r = Repeat 0 (Some 1) r"
definition rstar :: "regex \<Rightarrow> regex" where "rstar r = Repeat 0 None r"
definition rplus :: "regex \<Rightarrow> regex" where "rplus r = Repeat 1 None r"
definition rtimes :: "nat \<Rightarrow> regex \<Rightarrow> regex" where "rtimes n r = Repeat n (Some n) r"

fun rsize :: "regex \<Rightarrow> nat" where
  "rsize (Seq a b) = Suc (rsize a + rsize b)"
| "rsize (Alt a b) = Suc (rsize a + rsize b)"
| "rsize (Repeat mn mx r) = Suc (mn + rsize r)"
| "rsize _ = 0"

definition is_word_char :: "jsstring \<Rightarrow> int \<Rightarrow> bool" where
  "is_word_char s e = (0 \<le> e \<and> e < int (length s) \<and> in_class (s ! nat e) wordchar)"

text \<open>
  \<open>rmatch r s i\<close> lists, in the order in which the backtracking matcher of ECMAScript
  tries them, the end positions of the matches of \<open>r\<close> in \<open>s\<close> that start at \<open>i\<close>. A
  quantifier whose minimum is used up refuses an iteration that consumed nothing
  (RepeatMatcher, step 2.b); the test is written \<open>i < j \<and> j \<le> length s\<close>, which is the
  same test on end positions (lemma \<open>rmatch_empty_check\<close>).
\<close>

function rmatch :: "regex \<Rightarrow> jsstring \<Rightarrow> nat \<Rightarrow> nat list" where
  "rmatch Empty s i = [i]"
| "rmatch (Class cs) s i = (if i < length s \<and> in_class (s ! i) cs then [Suc i] else [])"
| "rmatch WordBoundary s i =
     (if is_word_char s (int i - 1) \<noteq> is_word_char s (int i) then [i] else [])"
| "rmatch (Seq a b) s i = concat (map (\<lambda>j. rmatch b s j) (rmatch a s i))"
| "rmatch (Alt a b) s i = rmatch a s i @ rmatch b s i"
| "rmatch (Repeat mn mx r) s i =
     (if mx = Some 0 then [i]
      else if mn \<noteq> 0 then
        concat (map (\<lambda>j. rmatch (Repeat (mn - 1) (map_option (\<lambda>k. k - 1) mx) r) s j)
                    (rmatch r s i))
      else
        concat (map (\<lambda>j. rmatch (Repeat 0 (map_option (\<lambda>k. k - 1) mx) r) s j)
                    (filter (\<lambda>j. i < j \<and> j \<le> length s) (rmatch r s i))) @ [i])"
  by pat_completeness auto
termination
  by (relation "measures [\<lambda>(r, s, i). rsize r, \<lambda>(r, s, i). length s - i]") auto

declare rmatch.simps(6) [simp del]

text \<open>The matches that start at one of several positions, in order.\<close>

definition rmatch_list :: "regex \<Rightarrow> jsstring \<Rightarrow> nat list \<Rightarrow> nat list" where
  "rmatch_list r s js = concat (map (\<lambda>j. rmatch r s j) js)"

section \<open>The pattern catalog\<close>

text \<open>\<open>[-.\s]\<close> and \<open>[-\s]\<close>, the separators of the phone and card patterns.\<close>

definition phone_sep :: cclass where "phone_sep = chars ''-.'' @ whitespace"
definition card_sep :: cclass where "card_sep = chars ''-'' @ whitespace"

text \<open>\<open>[A-Z][a-z]+(?:[-'][A-Z][a-z]+)?\<close>, which occurs twice in the name pattern.\<close>

definition capword :: regex where
  "capword = seqs [Class upper, rplus (Class lower),
                   ropt (seqs [Class [(45, 45), (39, 39)], Class upper, rplus (Class lower)])]"

definition email_re :: regex where
  "email_re = seqs [WordBoundary, Class alnum, rstar (Class (alnum @ chars ''._%+-'')),
                    Class (chars ''@''), Class alnum, rstar (Class (alnum @ chars ''.-'')),
                    Class (chars ''.''), Repeat 2 None (Class alpha), WordBoundary]"

definition phone_re :: regex where
  "phone_re = seqs [WordBoundary,
                    ropt (seqs [ropt (Class (chars ''+'')), Class (chars ''1''), ropt (Class phone_sep)]),
                    ropt (Class (chars ''('')), rtimes 3 (Class digit), ropt (Class (chars '')'')),
                    ropt (Class phone_sep), rtimes 3 (Class digit),
                    ropt (Class phone_sep), rtimes 4 (Class digit), WordBoundary]"

definition name_re :: regex where
  "name_re = seqs [WordBoundary,
                   ropt (seqs [alts [lit ''Dr'', lit ''Mr'', lit ''Ms'', lit ''Mrs'', lit ''Prof''],
                               ropt (Class (chars ''.'')), rplus (Class whitespace)]),
                   capword, rplus (Class whitespace),
                   ropt (seqs [Class upper, ropt (Class (chars ''.'')), rplus (Class whitespace)]),
                   capword, WordBoundary]"

definition address_re :: regex where
  "address_re = seqs [WordBoundary, Repeat 1 (Some 5) (Class digit), rplus (Class whitespace),
                      rplus (Class (alnum @ whitespace)),
                      alts [lit ''Street'', lit ''St'', lit ''Avenue'', lit ''Ave'', lit ''Road'',
                            lit ''Rd'', lit ''Boulevard'', lit ''Blvd'', lit ''Lane'', lit ''Ln'',
                            lit ''Drive'', lit ''Dr'', lit ''Court'', lit ''Ct'', lit ''Circle'',
                            lit ''Cir''],
                      WordBoundary]"

definition ssn_re :: regex where
  "ssn_re = seqs [WordBoundary, rtimes 3 (Class digit), Class (chars ''-''),
                  rtimes 2 (Class digit), Class (chars ''-''), rtimes 4 (Class digit),
                  WordBoundary]"

definition credit_card_re :: regex where
  "credit_card_re = seqs [WordBoundary, rtimes 4 (Class digit), ropt (Class card_sep),
                          rtimes 4 (Class digit), ropt (Class card_sep),
                          rtimes 4 (Class digit), ropt (Class card_sep),
                          rtimes 4 (Class digit), WordBoundary]"

text \<open>The own properties of \<open>this.patterns\<close> and of \<open>this.piiLabels\<close>, in insertion order.\<close>

definition patterns :: "(jsstring \<times> regex) list" where
  "patterns = [(str ''email'', email_re), (str ''phone'', phone_re), (str ''name'', name_re),
               (str ''address'', address_re), (str ''ssn'', ssn_re),
               (str ''credit_card'', credit_card_re)]"

definition piiLabels :: "(jsstring \<times> jsstring) list" where
  "piiLabels = [(str ''email'', str ''Email Addresses''), (str ''phone'', str ''Phone Numbers''),
                (str ''name'', str ''Names''), (str ''address'', str ''Street Addresses''),
                (str ''ssn'', str ''Social Security Numbers''),
                (str ''credit_card'', str ''Credit Card Numbers'')]"

section \<open>The scan loop of \<open>detect\<close>\<close>

record pii_match =
  m_value :: jsstring
  m_start :: nat
  m_end :: nat

text \<open>
  \<open>pattern.exec(text)\<close> for a pattern with the \<open>g\<close> flag: the search starts at
  \<open>lastIndex\<close> and tries every start position up to the length of the text; the first
  position with a match gives the pair of its start and end, and no match gives \<open>null\<close>.
\<close>

function exec :: "regex \<Rightarrow> jsstring \<Rightarrow> nat \<Rightarrow> (nat \<times> nat) option" where
  "exec r s lastIndex =
     (if lastIndex > length s then None
      else case rmatch r s lastIndex of
             e # _ \<Rightarrow> Some (lastIndex, e)
           | [] \<Rightarrow> exec r s (lastIndex + 1))"
  by pat_completeness auto
termination
  by (relation "measure (\<lambda>(r, s, i). Suc (length s) - i)") auto

declare exec.simps [simp del]

text \<open>
  \<open>s.substring(a, b)\<close>: the code units from \<open>min a b\<close> up to \<open>max a b\<close>, both clamped to
  the length; \<open>s.substring(a)\<close> runs to the end. The matched text \<open>match[0]\<close> of a match
  from \<open>b\<close> to \<open>e\<close> is \<open>substring s b e\<close>.
\<close>

definition substring :: "jsstring \<Rightarrow> nat \<Rightarrow> nat \<Rightarrow> jsstring" where
  "substring s a b = take (max a b - min a b) (drop (min a b) s)"

definition substring_from :: "jsstring \<Rightarrow> nat \<Rightarrow> jsstring" where
  "substring_from s a = drop a s"

text \<open>
  The \<open>while\<close> loop of \<open>detect\<close>. A successful \<open>exec\<close> leaves \<open>lastIndex\<close> at the end
  of the match, and the loop goes on from there; nothing in the loop moves past an
  empty match, so the loop need not return: \<open>None\<close> is the run that never ends. The
  pushed object has \<open>match[0]\<close>, \<open>match.index\<close> and \<open>match.index + match[0].length\<close>.
\<close>

partial_function (option) scan :: "regex \<Rightarrow> jsstring \<Rightarrow> nat \<Rightarrow> pii_match list option" where
  "scan r text lastIndex =
     (case exec r text lastIndex of
        None \<Rightarrow> Some []
      | Some (b, e) \<Rightarrow>
          Option.bind (scan r text e)
            (\<lambda>matches. Some (\<lparr>m_value = substring text b e, m_start = b,
                                  m_end = b + length (substring text b e)\<rparr> # matches)))"

declare scan.simps [code]

section \<open>The false-positive filters\<close>

text \<open>
  \<open>value.match(/\d+/g)\<close>: the maximal runs of decimal digits, from left to right
  (lemma \<open>match_digits\<close> compares them with the matcher). The source gets \<open>null\<close> where
  the model has the empty list; the test \<open>digits && digits.length === 3\<close> fails on both.
\<close>

fun digit_runs :: "jsstring \<Rightarrow> jsstring \<Rightarrow> jsstring list" where
  "digit_runs run [] = (if run = [] then [] else [run])"
| "digit_runs run (c # cs) =
     (if in_class c digit then digit_runs (run @ [c]) cs
      else (if run = [] then [] else [run]) @ digit_runs [] cs)"

text \<open>
  \<open>parseInt(string)\<close> without a radix: leading white space and a sign are skipped, a
  prefix \<open>0x\<close> selects radix 16, and the longest prefix of digits of the radix is read;
  \<open>None\<close> is \<open>NaN\<close>. The result is the mathematical integer: the rounding of very long
  numerals to a double is monotone and keeps 12 and 31, so it does not change the
  comparisons of the phone filter.
\<close>

definition digit_of :: "int \<Rightarrow> int option" where
  "digit_of c = (if 48 \<le> c \<and> c \<le> 57 then Some (c - 48)
                 else if 97 \<le> c \<and> c \<le> 122 then Some (c - 87)
                 else if 65 \<le> c \<and> c \<le> 90 then Some (c - 55)
                 else None)"

definition radix_digit :: "int \<Rightarrow> int \<Rightarrow> bool" where
  "radix_digit R c = (case digit_of c of None \<Rightarrow> False | Some d \<Rightarrow> d < R)"

definition digit_value :: "int \<Rightarrow> int" where
  "digit_value c = (case digit_of c of None \<Rightarrow> 0 | Some d \<Rightarrow> d)"

definition parseInt :: "jsstring \<Rightarrow> int option" where
  "parseInt string =
     (let s1 = dropWhile (\<lambda>c. in_class c whitespace) string;
          sign = (if take 1 s1 = str ''-'' then - 1 else 1);
          s2 = (if take 1 s1 = str ''+'' \<or> take 1 s1 = str ''-'' then drop 1 s1 else s1);
          hex = (take 2 s2 = str ''0x'' \<or> take 2 s2 = str ''0X'');
          R = (if hex then 16 else 10);
          s3 = (if hex then drop 2 s2 else s2);
          z = takeWhile (radix_digit R) s3
      in if z = [] then None
         else Some (sign * foldl (\<lambda>n c. n * R + digit_value c) 0 z))"

definition js_le :: "int option \<Rightarrow> int \<Rightarrow> bool" where
  "js_le x k = (case x of None \<Rightarrow> False | Some v \<Rightarrow> v \<le> k)"

definition phone_keep :: "pii_match \<Rightarrow> bool" where
  "phone_keep m =
     (let digits = digit_runs [] (m_value m)
      in if length digits = 3 then
           (let first = parseInt (digits ! 0); second = parseInt (digits ! 1)
            in if js_le first 12 \<and> js_le second 31 then False else True)
         else True)"

definition filterPhoneFalsePositives :: "pii_match list \<Rightarrow> pii_match list" where
  "filterPhoneFalsePositives matches = filter phone_keep matches"

text \<open>
  \<open>value.split(/\s+/)\<close>: the pieces between the maximal runs of white space; a run at
  the start or at the end of the string leaves an empty piece there.
\<close>

function split_ws :: "jsstring \<Rightarrow> jsstring \<Rightarrow> jsstring list" where
  "split_ws piece [] = [piece]"
| "split_ws piece (c # cs) =
     (if in_class c whitespace
      then piece # split_ws [] (dropWhile (\<lambda>c. in_class c whitespace) cs)
      else split_ws (piece @ [c]) cs)"
  by pat_completeness auto
termination
  by (relation "measure (\<lambda>(piece, s). length s)")
     (auto simp: less_Suc_eq_le length_dropWhile_le)

definition commonWords :: "jsstring list" where
  "commonWords = [str ''The'', str ''This'', str ''That'', str ''Will'', str ''May'',
                  str ''June'', str ''July'', str ''August'', str ''March'', str ''April'',
                  str ''January'', str ''February'']"

definition name_keep :: "pii_match \<Rightarrow> bool" where
  "name_keep m =
     (let words = split_ws [] (m_value m)
      in \<not> list_ex (\<lambda>word. word \<in> set commonWords) words)"

definition filterNameFalsePositives :: "pii_match list \<Rightarrow> pii_match list" where
  "filterNameFalsePositives matches = filter name_keep matches"

section \<open>\<open>detect\<close>\<close>

datatype error = TypeError

text \<open>
  \<open>this.patterns[piiType]\<close> reads a property of an object literal: an own property is one
  of the six patterns; any other name is looked up in \<open>Object.prototype\<close>, whose
  properties are functions (and, for \<open>__proto__\<close>, the prototype object itself); a name
  found nowhere gives \<open>undefined\<close>, here \<open>None\<close>.
\<close>

datatype property = RegExpObject regex | PrototypeObject

definition object_prototype :: "jsstring list" where
  "object_prototype = [str ''constructor'', str ''hasOwnProperty'', str ''isPrototypeOf'',
                       str ''propertyIsEnumerable'', str ''toLocaleString'', str ''toString'',
                       str ''valueOf'', str ''__proto__'', str ''__defineGetter__'',
                       str ''__defineSetter__'', str ''__lookupGetter__'',
                       str ''__lookupSetter__'']"

definition patterns_get :: "jsstring \<Rightarrow> property option" where
  "patterns_get piiType =
     (case map_of patterns piiType of
        Some r \<Rightarrow> Some (RegExpObject r)
      | None \<Rightarrow> if piiType \<in> set object_prototype then Some PrototypeObject else None)"

text \<open>
  \<open>detect(text, piiType)\<close>. An undefined pattern returns the empty array. A value that
  is not a regular expression passes the test \<open>!this.patterns[piiType]\<close>, and the call
  of its missing method \<open>exec\<close> throws a TypeError. The outer \<open>None\<close> is the scan that
  does not return.
\<close>

definition detect :: "jsstring \<Rightarrow> jsstring \<Rightarrow> (error + pii_match list) option" where
  "detect text piiType =
     (case patterns_get piiType of
        None \<Rightarrow> Some (Inr [])
      | Some PrototypeObject \<Rightarrow> Some (Inl TypeError)
      | Some (RegExpObject pattern) \<Rightarrow>
          (case scan pattern text 0 of
             None \<Rightarrow> None
           | Some matches \<Rightarrow>
               Some (Inr (if piiType = str ''phone'' then filterPhoneFalsePositives matches
                          else if piiType = str ''name'' then filterNameFalsePositives matches
                          else matches))))"

section \<open>\<open>detectAll\<close>, \<open>getSummary\<close>, \<open>getUniqueValues\<close>\<close>

text \<open>
  An object used as a dictionary is an association list in insertion order, which is the
  order of \<open>for ... in\<close>; \<open>obj[k] = v\<close> overwrites the entry of \<open>k\<close> or appends one.
\<close>

fun set_prop :: "jsstring \<Rightarrow> 'v \<Rightarrow> (jsstring \<times> 'v) list \<Rightarrow> (jsstring \<times> 'v) list" where
  "set_prop k v [] = [(k, v)]"
| "set_prop k v ((k', v') # obj) =
     (if k = k' then (k, v) # obj else (k', v') # set_prop k v obj)"

type_synonym results = "(jsstring \<times> pii_match list) list"

fun detectAll_loop :: "jsstring \<Rightarrow> jsstring list \<Rightarrow> results \<Rightarrow> (error + results) option" where
  "detectAll_loop text [] results = Some (Inr results)"
| "detectAll_loop text (piiType # rest) results =
     (case detect text piiType of
        None \<Rightarrow> None
      | Some (Inl e) \<Rightarrow> Some (Inl e)
      | Some (Inr matches) \<Rightarrow> detectAll_loop text rest (set_prop piiType matches results))"

definition detectAll :: "jsstring \<Rightarrow> (error + results) option" where
  "detectAll text = detectAll_loop text (map fst patterns) []"

fun getSummary_loop :: "results \<Rightarrow> (jsstring \<times> nat) list \<Rightarrow> (jsstring \<times> nat) list" where
  "getSummary_loop [] summary = summary"
| "getSummary_loop ((piiType, matches) # rest) summary =
     getSummary_loop rest (set_prop piiType (length matches) summary)"

definition getSummary :: "jsstring \<Rightarrow> (error + (jsstring \<times> nat) list) option" where
  "getSummary text =
     (case detectAll text of
        None \<Rightarrow> None
      | Some (Inl e) \<Rightarrow> Some (Inl e)
      | Some (Inr results) \<Rightarrow> Some (Inr (getSummary_loop results [])))"

text \<open>
  \<open>[...new Set(values)]\<close>: a Set keeps its elements in insertion order and ignores the
  insertion of an element it has; strings are equal when their code units are.
\<close>

fun set_add_all :: "'a list \<Rightarrow> 'a list \<Rightarrow> 'a list" where
  "set_add_all elems [] = elems"
| "set_add_all elems (v # vs) =
     set_add_all (if v \<in> set elems then elems else elems @ [v]) vs"

fun getUniqueValues_loop ::
  "results \<Rightarrow> (jsstring \<times> jsstring list) list \<Rightarrow> (jsstring \<times> jsstring list) list" where
  "getUniqueValues_loop [] unique = unique"
| "getUniqueValues_loop ((piiType, matches) # rest) unique =
     getUniqueValues_loop rest (set_prop piiType (set_add_all [] (map m_value matches)) unique)"

definition getUniqueValues :: "jsstring \<Rightarrow> (error + (jsstring \<times> jsstring list) list) option" where
  "getUniqueValues text =
     (case detectAll text of
        None \<Rightarrow> None
      | Some (Inl e) \<Rightarrow> Some (Inl e)
      | Some (Inr results) \<Rightarrow> Some (Inr (getUniqueValues_loop results [])))"

section \<open>\<open>anonymize\<close>\<close>

record typed_match = pii_match +
  m_type :: jsstring

text \<open>The two nested loops that push every match, with its category, on \<open>allMatches\<close>.\<close>

fun push_matches :: "jsstring \<Rightarrow> pii_match list \<Rightarrow> typed_match list \<Rightarrow> typed_match list" where
  "push_matches piiType [] allMatches = allMatches"
| "push_matches piiType (m # ms) allMatches =
     push_matches piiType ms
       (allMatches @ [\<lparr>m_value = m_value m, m_start = m_start m, m_end = m_end m,
                       m_type = piiType\<rparr>])"

fun collect_loop :: "results \<Rightarrow> typed_match list \<Rightarrow> typed_match list" where
  "collect_loop [] allMatches = allMatches"
| "collect_loop ((piiType, matches) # rest) allMatches =
     collect_loop rest (push_matches piiType matches allMatches)"

text \<open>
  \<open>Array.prototype.sort\<close> with a comparator is stable; with a consistent comparator
  its result is the one that stable insertion gives.
\<close>

fun sort_insert :: "('a \<Rightarrow> 'a \<Rightarrow> int) \<Rightarrow> 'a \<Rightarrow> 'a list \<Rightarrow> 'a list" where
  "sort_insert cmp x [] = [x]"
| "sort_insert cmp x (y # ys) =
     (if cmp x y \<le> 0 then x # y # ys else y # sort_insert cmp x ys)"

definition array_sort :: "('a \<Rightarrow> 'a \<Rightarrow> int) \<Rightarrow> 'a list \<Rightarrow> 'a list" where
  "array_sort cmp xs = foldr (sort_insert cmp) xs []"

definition by_start_desc :: "typed_match \<Rightarrow> typed_match \<Rightarrow> int" where
  "by_start_desc a b = int (m_start b) - int (m_start a)"

text \<open>\<open>toUpperCase\<close> on the ASCII letters, which is all that the labels contain.\<close>

definition toUpperCase :: "jsstring \<Rightarrow> jsstring" where
  "toUpperCase s = map (\<lambda>c. if 97 \<le> c \<and> c \<le> 122 then c - 32 else c) s"

text \<open>
  The placeholder of a category; a category without a label would call \<open>toUpperCase\<close>
  on \<open>undefined\<close>, a TypeError.
\<close>

definition placeholder :: "jsstring \<Rightarrow> error + jsstring" where
  "placeholder piiType =
     (case map_of piiLabels piiType of
        None \<Rightarrow> Inl TypeError
      | Some label \<Rightarrow> Inr (str ''['' @ toUpperCase label @ str '']''))"

fun replace_loop :: "jsstring \<Rightarrow> typed_match list \<Rightarrow> error + jsstring" where
  "replace_loop anonymized [] = Inr anonymized"
| "replace_loop anonymized (m # rest) =
     (case placeholder (m_type m) of
        Inl e \<Rightarrow> Inl e
      | Inr p \<Rightarrow>
          replace_loop (substring anonymized 0 (m_start m) @ p @ substring_from anonymized (m_end m))
            rest)"

definition anonymize :: "jsstring \<Rightarrow> (error + jsstring) option" where
  "anonymize text =
     (case detectAll text of
        None \<Rightarrow> None
      | Some (Inl e) \<Rightarrow> Some (Inl e)
      | Some (Inr results) \<Rightarrow>
          Some (replace_loop text (array_sort by_start_desc (collect_loop results []))))"

section \<open>Auxiliary definitions for the properties\<close>

text \<open>A lower bound on the number of code units that a match of a pattern consumes.\<close>

fun minlen :: "regex \<Rightarrow> nat" where
  "minlen Empty = 0"
| "minlen (Class cs) = 1"
| "minlen WordBoundary = 0"
| "minlen (Seq a b) = minlen a + minlen b"
| "minlen (Alt a b) = min (minlen a) (minlen b)"
| "minlen (Repeat mn mx r) = (case mx of None \<Rightarrow> mn | Some k \<Rightarrow> min mn k) * minlen r"

definition categories :: "jsstring list" where
  "categories = map fst patterns"

text \<open>A match is a proper span of the document and carries the text of that span.\<close>

definition span_ok :: "jsstring \<Rightarrow> pii_match \<Rightarrow> bool" where
  "span_ok D m = (m_start m < m_end m \<and> m_end m \<le> length D \<and>
                  substring D (m_start m) (m_end m) = m_value m)"

text \<open>The second match starts after the start of the first and not before its end.\<close>

definition apart :: "pii_match \<Rightarrow> pii_match \<Rightarrow> bool" where
  "apart a b = (m_start a < m_start b \<and> m_end a \<le> m_start b)"

text \<open>The filter step at the end of \<open>detect\<close>.\<close>

definition post_filter :: "jsstring \<Rightarrow> pii_match list \<Rightarrow> pii_match list" where
  "post_filter piiType matches =
     (if piiType = str ''phone'' then filterPhoneFalsePositives matches
      else if piiType = str ''name'' then filterNameFalsePositives matches
      else matches)"

text \<open>The matches that \<open>detect\<close> returns, the empty list where it returns none.\<close>

definition matches_of :: "jsstring \<Rightarrow> jsstring \<Rightarrow> pii_match list" where
  "matches_of D c = (case detect D c of Some (Inr ms) \<Rightarrow> ms | _ \<Rightarrow> [])"

text \<open>The position at which a value occurs first in a list.\<close>

definition first_index :: "'a list \<Rightarrow> 'a \<Rightarrow> nat" where
  "first_index vs x = length (takeWhile (\<lambda>y. y \<noteq> x) vs)"

text \<open>The integer that a string of decimal digits denotes.\<close>

definition decimal :: "jsstring \<Rightarrow> int" where
  "decimal g = foldl (\<lambda>n c. 10 * n + (c - 48)) 0 g"

text \<open>
  The test of the phone filter in the words of the specification: the maximal runs of
  digits are exactly three, the first is at most 12 and the second at most 31.
\<close>

definition date_like :: "jsstring \<Rightarrow> bool" where
  "date_like v =
     (let groups = digit_runs [] v
      in length groups = 3 \<and> decimal (groups ! 0) \<le> 12 \<and> decimal (groups ! 1) \<le> 31)"

text \<open>
  The words of a string: its maximal runs of code units that are not white space.
\<close>

fun ws_words :: "jsstring \<Rightarrow> jsstring \<Rightarrow> jsstring list" where
  "ws_words word [] = (if word = [] then [] else [word])"
| "ws_words word (c # cs) =
     (if in_class c whitespace then (if word = [] then [] else [word]) @ ws_words [] cs
      else ws_words (word @ [c]) cs)"

text \<open>
  The procedure of the specification for \<open>anonymize\<close>: the retained matches of every
  category, each with its category, in catalog order; sorted by descending \<open>start\<close>
  (\<open>sort_key\<close> is stable); then, from the document on, each span replaced in the current
  string by the bracketed upper-case label of its category.
\<close>

definition with_type :: "jsstring \<Rightarrow> pii_match \<Rightarrow> typed_match" where
  "with_type c m = \<lparr>m_value = m_value m, m_start = m_start m, m_end = m_end m, m_type = c\<rparr>"

definition retained :: "results \<Rightarrow> typed_match list" where
  "retained results = concat (map (\<lambda>(c, ms). map (with_type c) ms) results)"

definition label :: "jsstring \<Rightarrow> jsstring" where
  "label c = (case map_of piiLabels c of Some l \<Rightarrow> l | None \<Rightarrow> [])"

definition redact :: "jsstring \<Rightarrow> typed_match \<Rightarrow> jsstring" where
  "redact cur m =
     take (m_start m) cur @ (str ''['' @ toUpperCase (label (m_type m)) @ str '']'')
       @ drop (m_end m) cur"

section \<open>Properties of the matcher\<close>

text \<open>The equations of \<open>rmatch\<close> without \<open>map\<close>, for evaluation.\<close>

lemma rmatch_list_code [code]:
  "rmatch_list r s [] = []"
  "rmatch_list r s (j # js) = rmatch r s j @ rmatch_list r s js"
  by (simp_all add: rmatch_list_def)

lemma rmatch_code [code]:
  "rmatch Empty s i = [i]"
  "rmatch (Class cs) s i = (if i < length s \<and> in_class (s ! i) cs then [Suc i] else [])"
  "rmatch WordBoundary s i =
     (if is_word_char s (int i - 1) \<noteq> is_word_char s (int i) then [i] else [])"
  "rmatch (Seq a b) s i = rmatch_list b s (rmatch a s i)"
  "rmatch (Alt a b) s i = rmatch a s i @ rmatch b s i"
  "rmatch (Repeat mn mx r) s i =
     (if mx = Some 0 then [i]
      else if mn \<noteq> 0 then
        rmatch_list (Repeat (mn - 1) (map_option (\<lambda>k. k - 1) mx) r) s (rmatch r s i)
      else
        rmatch_list (Repeat 0 (map_option (\<lambda>k. k - 1) mx) r) s
                    (filter (\<lambda>j. i < j \<and> j \<le> length s) (rmatch r s i)) @ [i])"
  unfolding rmatch_list_def by (fact rmatch.simps)+

lemma rmatch_Repeat_done: "rmatch (Repeat mn (Some 0) r) s i = [i]"
  by (subst rmatch.simps(6)) simp

lemma rmatch_Repeat_more:
  "mx \<noteq> Some 0 \<Longrightarrow> mn \<noteq> 0 \<Longrightarrow>
   rmatch (Repeat mn mx r) s i =
     concat (map (\<lambda>j. rmatch (Repeat (mn - 1) (map_option (\<lambda>k. k - 1) mx) r) s j)
                 (rmatch r s i))"
  by (subst rmatch.simps(6)) simp

lemma rmatch_Repeat_zero:
  "mx \<noteq> Some 0 \<Longrightarrow>
   rmatch (Repeat 0 mx r) s i =
     concat (map (\<lambda>j. rmatch (Repeat 0 (map_option (\<lambda>k. k - 1) mx) r) s j)
                 (filter (\<lambda>j. i < j \<and> j \<le> length s) (rmatch r s i))) @ [i]"
  by (subst rmatch.simps(6)) simp

lemma rmatch_lower: "j \<in> set (rmatch r s i) \<Longrightarrow> i + minlen r \<le> j"
proof (induction r s i arbitrary: j rule: rmatch.induct)
  case (1 s i)
  then show ?case by simp
next
  case (2 cs s i)
  then show ?case by (simp split: if_splits)
next
  case (3 s i)
  then show ?case by (simp split: if_splits)
next
  case (4 a b s i)
  from "4.prems" obtain k where k: "k \<in> set (rmatch a s i)" and j: "j \<in> set (rmatch b s k)"
    by auto
  from "4.IH"(1)[OF k] "4.IH"(2)[OF k j] show ?case by simp
next
  case (5 a b s i)
  from "5.prems" have "j \<in> set (rmatch a s i) \<or> j \<in> set (rmatch b s i)" by simp
  then show ?case using "5.IH" by force
next
  case (6 mn mx r s i)
  show ?case
  proof (cases "mx = Some 0")
    case True
    with "6.prems" show ?thesis by (simp add: rmatch_Repeat_done)
  next
    case mx: False
    show ?thesis
    proof (cases "mn = 0")
      case True
      have m0: "minlen (Repeat mn mx r) = 0"
        using True by (simp split: option.splits)
      from "6.prems" mx True
      consider "j = i"
        | k where "k \<in> set (rmatch r s i)" "i < k" "k \<le> length s"
            "j \<in> set (rmatch (Repeat 0 (map_option (\<lambda>k. k - 1) mx) r) s k)"
        by (auto simp: rmatch_Repeat_zero)
      then show ?thesis
      proof cases
        case 1
        then show ?thesis unfolding m0 by simp
      next
        case (2 k)
        from "6.IH"(4)[OF mx, of k j] True 2 have "k \<le> j" by simp
        with 2 have "i \<le> j" by simp
        then show ?thesis unfolding m0 by simp
      qed
    next
      case False
      with "6.prems" mx obtain k where k: "k \<in> set (rmatch r s i)"
        and j: "j \<in> set (rmatch (Repeat (mn - 1) (map_option (\<lambda>k. k - 1) mx) r) s k)"
        by (auto simp: rmatch_Repeat_more)
      from "6.IH"(1)[OF mx False k] have a: "i + minlen r \<le> k" .
      from "6.IH"(2)[OF mx False k j]
      have b: "k + (case mx of None \<Rightarrow> mn - 1 | Some q \<Rightarrow> min (mn - 1) (q - 1)) * minlen r \<le> j"
        by (simp split: option.splits)
      have c: "(case mx of None \<Rightarrow> mn | Some q \<Rightarrow> min mn q)
                 = Suc (case mx of None \<Rightarrow> mn - 1 | Some q \<Rightarrow> min (mn - 1) (q - 1))"
        using False mx by (auto split: option.splits)
      show ?thesis using a b by (simp add: c)
    qed
  qed
qed

lemma rmatch_upper: "j \<in> set (rmatch r s i) \<Longrightarrow> i \<le> length s \<Longrightarrow> j \<le> length s"
proof (induction r s i arbitrary: j rule: rmatch.induct)
  case (1 s i)
  then show ?case by simp
next
  case (2 cs s i)
  then show ?case by (simp split: if_splits)
next
  case (3 s i)
  then show ?case by (simp split: if_splits)
next
  case (4 a b s i)
  from "4.prems" obtain k where k: "k \<in> set (rmatch a s i)" and j: "j \<in> set (rmatch b s k)"
    by auto
  from "4.IH"(1)[OF k "4.prems"(2)] "4.IH"(2)[OF k j] show ?case by simp
next
  case (5 a b s i)
  from "5.prems" have "j \<in> set (rmatch a s i) \<or> j \<in> set (rmatch b s i)" by simp
  then show ?case using "5.IH" "5.prems"(2) by force
next
  case (6 mn mx r s i)
  show ?case
  proof (cases "mx = Some 0")
    case True
    with "6.prems" show ?thesis by (simp add: rmatch_Repeat_done)
  next
    case mx: False
    show ?thesis
    proof (cases "mn = 0")
      case True
      from "6.prems" mx True
      consider "j = i"
        | k where "k \<in> set (rmatch r s i)" "i < k" "k \<le> length s"
            "j \<in> set (rmatch (Repeat 0 (map_option (\<lambda>k. k - 1) mx) r) s k)"
        by (auto simp: rmatch_Repeat_zero)
      then show ?thesis
      proof cases
        case 1
        then show ?thesis using "6.prems"(2) by simp
      next
        case (2 k)
        from "6.IH"(4)[OF mx, of k j] True 2 show ?thesis by simp
      qed
    next
      case False
      with "6.prems" mx obtain k where k: "k \<in> set (rmatch r s i)"
        and j: "j \<in> set (rmatch (Repeat (mn - 1) (map_option (\<lambda>k. k - 1) mx) r) s k)"
        by (auto simp: rmatch_Repeat_more)
      from "6.IH"(1)[OF mx False k "6.prems"(2)] have a: "k \<le> length s" .
      from "6.IH"(2)[OF mx False k j a] show ?thesis .
    qed
  qed
qed

text \<open>
  The guard \<open>i < j \<and> j \<le> length s\<close> in the definition of \<open>rmatch\<close> is the test
  \<open>j \<noteq> i\<close> of the standard: it is there for the termination proof only.
\<close>

lemma rmatch_empty_check:
  "filter (\<lambda>j. i < j \<and> j \<le> length s) (rmatch r s i) = filter (\<lambda>j. j \<noteq> i) (rmatch r s i)"
  if "i \<le> length s"
proof (rule filter_cong[OF refl])
  fix j assume "j \<in> set (rmatch r s i)"
  from rmatch_lower[OF this] rmatch_upper[OF this that]
  show "(i < j \<and> j \<le> length s) = (j \<noteq> i)" by auto
qed

lemma exec_Some:
  "exec r s li = Some (b, e) \<Longrightarrow> li \<le> b \<and> b \<le> length s \<and> e \<in> set (rmatch r s b)"
proof (induction r s li rule: exec.induct)
  case (1 r s li)
  show ?case
  proof (cases "li > length s")
    case True
    with "1.prems" show ?thesis by (simp add: exec.simps[of r s li])
  next
    case False
    show ?thesis
    proof (cases "rmatch r s li")
      case Nil
      with False "1.prems" have "exec r s (li + 1) = Some (b, e)"
        by (simp add: exec.simps[of r s li])
      from "1.IH"[OF False Nil this] show ?thesis by simp
    next
      case (Cons x xs)
      with False "1.prems" show ?thesis by (auto simp: exec.simps[of r s li])
    qed
  qed
qed


lemma exec_progress:
  assumes "exec r s li = Some (b, e)" and "0 < minlen r"
  shows "li \<le> b" and "b < e" and "e \<le> length s"
proof -
  from exec_Some[OF assms(1)] have 1: "li \<le> b" and 2: "b \<le> length s"
    and 3: "e \<in> set (rmatch r s b)" by simp_all
  show "li \<le> b" by (rule 1)
  from rmatch_lower[OF 3] assms(2) show "b < e" by simp
  from rmatch_upper[OF 3 2] show "e \<le> length s" .
qed

lemma scan_None: "exec r s li = None \<Longrightarrow> scan r s li = Some []"
  by (subst scan.simps) simp

lemma scan_Some:
  "exec r s li = Some (b, e) \<Longrightarrow>
   scan r s li = Option.bind (scan r s e)
     (\<lambda>matches. Some (\<lparr>m_value = substring s b e, m_start = b,
                           m_end = b + length (substring s b e)\<rparr> # matches))"
  by (subst scan.simps) simp

lemma scan_total:
  assumes "0 < minlen r"
  shows "\<exists>ms. scan r s li = Some ms"
proof (induction "length s - li" arbitrary: li rule: less_induct)
  case less
  show ?case
  proof (cases "exec r s li")
    case None
    then show ?thesis by (simp add: scan_None)
  next
    case (Some be)
    obtain b e where be: "be = (b, e)" by (cases be)
    from Some be have ex: "exec r s li = Some (b, e)" by simp
    from exec_progress[OF ex assms] have "length s - e < length s - li" by simp
    from less[OF this] obtain ms where "scan r s e = Some ms" by blast
    then show ?thesis by (simp add: scan_Some[OF ex])
  qed
qed

lemma scan_matches:
  assumes "0 < minlen r"
  shows "scan r s li = Some ms \<Longrightarrow>
         (\<forall>m\<in>set ms. li \<le> m_start m \<and> span_ok s m) \<and> sorted_wrt apart ms"
proof (induction ms arbitrary: li)
  case Nil
  then show ?case by simp
next
  case (Cons m ms)
  show ?case
  proof (cases "exec r s li")
    case None
    with Cons.prems show ?thesis by (simp add: scan_None)
  next
    case (Some be)
    obtain b e where be: "be = (b, e)" by (cases be)
    from Some be have ex: "exec r s li = Some (b, e)" by simp
    note pr = exec_progress[OF ex assms]
    have len: "b + length (substring s b e) = e" using pr by (simp add: substring_def)
    from Cons.prems have m: "m = \<lparr>m_value = substring s b e, m_start = b, m_end = e\<rparr>"
      and rest: "scan r s e = Some ms"
      by (auto simp: scan_Some[OF ex] len split: bind_splits)
    from Cons.IH[OF rest] have ih: "\<forall>x\<in>set ms. e \<le> m_start x \<and> span_ok s x"
      and srt: "sorted_wrt apart ms" by simp_all
    have "span_ok s m" using pr by (simp add: m span_ok_def)
    moreover have "li \<le> m_start m" using pr by (simp add: m)
    moreover have "\<forall>x\<in>set ms. apart m x" using ih pr by (auto simp: m apart_def)
    moreover have "\<forall>x\<in>set ms. li \<le> m_start x" using ih pr by auto
    ultimately show ?thesis using ih srt by simp
  qed
qed

section \<open>Properties of \<open>detect\<close>\<close>

lemma distinct_categories: "distinct categories"
  by (simp add: categories_def patterns_def str_def)

lemma minlen_patterns: "(k, r) \<in> set patterns \<Longrightarrow> 0 < minlen r"
  by (auto simp: patterns_def email_re_def phone_re_def name_re_def address_re_def ssn_re_def
      credit_card_re_def capword_def ropt_def rstar_def rplus_def rtimes_def lit_def)

lemma patterns_get_known: "(k, r) \<in> set patterns \<Longrightarrow> patterns_get k = Some (RegExpObject r)"
  using distinct_categories by (simp add: patterns_get_def categories_def)

lemma detect_known:
  assumes "(k, r) \<in> set patterns"
  shows "\<exists>ms. scan r D 0 = Some ms \<and> detect D k = Some (Inr (post_filter k ms))"
proof -
  from scan_total[OF minlen_patterns[OF assms]] obtain ms where "scan r D 0 = Some ms" by blast
  then show ?thesis by (simp add: detect_def patterns_get_known[OF assms] post_filter_def)
qed

lemma post_filter_sub: "\<exists>P. post_filter k ms = filter P ms"
proof -
  have "ms = filter (\<lambda>_. True) ms" by simp
  then show ?thesis
    unfolding post_filter_def filterPhoneFalsePositives_def filterNameFalsePositives_def
    by metis
qed

lemma detect_matches:
  assumes "c \<in> set categories"
  shows "\<exists>ms. detect D c = Some (Inr ms) \<and> (\<forall>m\<in>set ms. span_ok D m) \<and> sorted_wrt apart ms"
proof -
  from assms obtain r where kr: "(c, r) \<in> set patterns" by (auto simp: categories_def)
  from detect_known[OF kr] obtain raw where raw: "scan r D 0 = Some raw"
    and d: "detect D c = Some (Inr (post_filter c raw))" by blast
  from scan_matches[OF minlen_patterns[OF kr] raw]
  have 1: "\<forall>m\<in>set raw. span_ok D m" and 2: "sorted_wrt apart raw" by simp_all
  obtain P where P: "post_filter c raw = filter P raw" using post_filter_sub by blast
  have "\<forall>m\<in>set (filter P raw). span_ok D m" using 1 by simp
  moreover have "sorted_wrt apart (filter P raw)" using 2 by (rule sorted_wrt_filter)
  ultimately show ?thesis using d P by simp
qed



section \<open>Properties of \<open>detectAll\<close> and \<open>getSummary\<close>\<close>

lemma set_prop_fresh: "k \<notin> fst ` set obj \<Longrightarrow> set_prop k v obj = obj @ [(k, v)]"
  by (induction obj) auto

lemma detectAll_loop_eq:
  "distinct ks \<Longrightarrow> set ks \<inter> fst ` set acc = {} \<Longrightarrow>
   (\<forall>k\<in>set ks. \<exists>ms. detect D k = Some (Inr ms)) \<Longrightarrow>
   detectAll_loop D ks acc = Some (Inr (acc @ map (\<lambda>k. (k, matches_of D k)) ks))"
proof (induction ks arbitrary: acc)
  case Nil
  then show ?case by simp
next
  case (Cons k ks)
  from Cons.prems obtain ms where ms: "detect D k = Some (Inr ms)" by auto
  have fresh: "k \<notin> fst ` set acc" using Cons.prems by auto
  have "set ks \<inter> fst ` set (acc @ [(k, ms)]) = {}" using Cons.prems by auto
  from Cons.IH[OF _ this] Cons.prems
  have "detectAll_loop D ks (acc @ [(k, ms)])
          = Some (Inr ((acc @ [(k, ms)]) @ map (\<lambda>k. (k, matches_of D k)) ks))" by simp
  then show ?case by (simp add: ms set_prop_fresh[OF fresh] matches_of_def)
qed

lemma detectAll_eq: "detectAll D = Some (Inr (map (\<lambda>c. (c, matches_of D c)) categories))"
proof -
  have "\<forall>k\<in>set categories. \<exists>ms. detect D k = Some (Inr ms)"
    using detect_matches by blast
  from detectAll_loop_eq[OF distinct_categories _ this, of "[]"]
  show ?thesis by (simp add: detectAll_def categories_def)
qed

lemma map_of_graph: "c \<in> set ks \<Longrightarrow> map_of (map (\<lambda>k. (k, f k)) ks) c = Some (f c)"
  by (induction ks) auto

lemma detectAll_lookup:
  assumes "c \<in> set categories"
  shows "\<exists>results. detectAll D = Some (Inr results) \<and> map fst results = categories \<and>
           map_of results c = Some (matches_of D c) \<and> detect D c = Some (Inr (matches_of D c))"
proof -
  from detect_matches[OF assms, of D] have "detect D c = Some (Inr (matches_of D c))"
    by (auto simp: matches_of_def)
  then show ?thesis using assms by (simp add: detectAll_eq map_of_graph comp_def)
qed

lemma getSummary_loop_eq:
  "distinct (map fst res) \<Longrightarrow> fst ` set res \<inter> fst ` set acc = {} \<Longrightarrow>
   getSummary_loop res acc = acc @ map (\<lambda>(k, ms). (k, length ms)) res"
proof (induction res arbitrary: acc)
  case Nil
  then show ?case by simp
next
  case (Cons p res)
  obtain k ms where p: "p = (k, ms)" by (cases p)
  have fresh: "k \<notin> fst ` set acc" using Cons.prems p by auto
  have d: "distinct (map fst res)" using Cons.prems by simp
  have "fst ` set res \<inter> fst ` set (acc @ [(k, length ms)]) = {}"
    using Cons.prems p by auto
  from Cons.IH[OF d this] show ?case by (simp add: p set_prop_fresh[OF fresh])
qed

lemma getSummary_eq:
  "getSummary D = Some (Inr (map (\<lambda>c. (c, length (matches_of D c))) categories))"
proof -
  have "distinct (map fst (map (\<lambda>c. (c, matches_of D c)) categories))"
    using distinct_categories by (simp add: comp_def)
  from getSummary_loop_eq[OF this, of "[]"] show ?thesis
    by (simp add: getSummary_def detectAll_eq comp_def)
qed

lemma scan_length:
  assumes "0 < minlen r"
  shows "scan r s li = Some ms \<Longrightarrow> length ms \<le> length s - li"
proof (induction ms arbitrary: li)
  case Nil
  then show ?case by simp
next
  case (Cons m ms)
  show ?case
  proof (cases "exec r s li")
    case None
    with Cons.prems show ?thesis by (simp add: scan_None)
  next
    case (Some be)
    obtain b e where be: "be = (b, e)" by (cases be)
    from Some be have ex: "exec r s li = Some (b, e)" by simp
    note pr = exec_progress[OF ex assms]
    from Cons.prems have rest: "scan r s e = Some ms"
      by (auto simp: scan_Some[OF ex] split: bind_splits)
    from Cons.IH[OF rest] pr show ?thesis by simp
  qed
qed

lemma categories_eq:
  "categories = [str ''email'', str ''phone'', str ''name'', str ''address'', str ''ssn'',
                 str ''credit_card'']"
  by (simp add: categories_def patterns_def)

lemma ssn_example: "exec ssn_re (str ''id 123-45-6789'') 0 = Some (3, 14)"
  by code_simp

text \<open>The example document of the witnesses: the same address twice.\<close>

lemma detectAll_example:
  "detectAll (str ''a@b.co a@b.co'') =
     Some (Inr [(str ''email'', [\<lparr>m_value = str ''a@b.co'', m_start = 0, m_end = 6\<rparr>,
                                 \<lparr>m_value = str ''a@b.co'', m_start = 7, m_end = 13\<rparr>]),
                (str ''phone'', []), (str ''name'', []), (str ''address'', []),
                (str ''ssn'', []), (str ''credit_card'', [])])"
  by code_simp

lemma email_category: "str ''email'' \<in> set categories"
  by (simp add: categories_def patterns_def)

section \<open>Properties of \<open>getUniqueValues\<close>\<close>

lemma set_add_all_snoc:
  "set_add_all elems (vs @ [v]) =
     (if v \<in> set (set_add_all elems vs) then set_add_all elems vs
      else set_add_all elems vs @ [v])"
  by (induction vs arbitrary: elems) simp_all

lemma first_index_less: "x \<in> set vs \<Longrightarrow> first_index vs x < length vs"
  unfolding first_index_def by (induction vs) auto

lemma first_index_append: "x \<in> set vs \<Longrightarrow> first_index (vs @ ws) x = first_index vs x"
  unfolding first_index_def by (simp add: takeWhile_append1)

lemma first_index_new: "x \<notin> set vs \<Longrightarrow> first_index (vs @ [x]) x = length vs"
  unfolding first_index_def by (induction vs) auto

lemma set_add_all_first_seen:
  "distinct (set_add_all [] vs) \<and> set (set_add_all [] vs) = set vs \<and>
   sorted_wrt (\<lambda>a b. first_index vs a < first_index vs b) (set_add_all [] vs)"
proof (induction vs rule: rev_induct)
  case Nil
  then show ?case by simp
next
  case (snoc v vs)
  let ?u = "set_add_all [] vs"
  from snoc have d: "distinct ?u" and s: "set ?u = set vs"
    and o: "sorted_wrt (\<lambda>a b. first_index vs a < first_index vs b) ?u" by simp_all
  have o': "sorted_wrt (\<lambda>a b. first_index (vs @ [v]) a < first_index (vs @ [v]) b) ?u"
    by (rule sorted_wrt_mono_rel[OF _ o]) (simp add: s first_index_append)
  show ?case
  proof (cases "v \<in> set vs")
    case True
    then show ?thesis using d s o' by (auto simp: set_add_all_snoc)
  next
    case False
    have "\<forall>a\<in>set ?u. first_index (vs @ [v]) a < first_index (vs @ [v]) v"
      using False by (simp add: s first_index_append first_index_new first_index_less)
    then show ?thesis using False d s o'
      by (simp add: set_add_all_snoc sorted_wrt_append)
  qed
qed

lemma getUniqueValues_loop_eq:
  "distinct (map fst res) \<Longrightarrow> fst ` set res \<inter> fst ` set acc = {} \<Longrightarrow>
   getUniqueValues_loop res acc
     = acc @ map (\<lambda>(k, ms). (k, set_add_all [] (map m_value ms))) res"
proof (induction res arbitrary: acc)
  case Nil
  then show ?case by simp
next
  case (Cons p res)
  obtain k ms where p: "p = (k, ms)" by (cases p)
  have fresh: "k \<notin> fst ` set acc" using Cons.prems p by auto
  have d: "distinct (map fst res)" using Cons.prems by simp
  have "fst ` set res \<inter> fst ` set (acc @ [(k, set_add_all [] (map m_value ms))]) = {}"
    using Cons.prems p by auto
  from Cons.IH[OF d this] show ?case by (simp add: p set_prop_fresh[OF fresh])
qed

lemma getUniqueValues_eq:
  "getUniqueValues D =
     Some (Inr (map (\<lambda>c. (c, set_add_all [] (map m_value (matches_of D c)))) categories))"
proof -
  have "distinct (map fst (map (\<lambda>c. (c, matches_of D c)) categories))"
    using distinct_categories by (simp add: comp_def)
  from getUniqueValues_loop_eq[OF this, of "[]"] show ?thesis
    by (simp add: getUniqueValues_def detectAll_eq comp_def)
qed


lemma detect_unknown:
  "t \<notin> set categories \<Longrightarrow> t \<notin> set object_prototype \<Longrightarrow> detect D t = Some (Inr [])"
proof -
  assume "t \<notin> set categories" and p: "t \<notin> set object_prototype"
  then have "map_of patterns t = None" by (simp add: categories_def map_of_eq_None_iff)
  with p show ?thesis by (simp add: detect_def patterns_get_def)
qed

section \<open>Properties of the filters\<close>

lemma in_digit: "in_class c digit = (48 \<le> c \<and> c \<le> 57)"
  by (simp add: in_class_def digit_def)

lemma digit_not_whitespace: "in_class c digit \<Longrightarrow> \<not> in_class c whitespace"
  by (auto simp: in_class_def digit_def whitespace_def)

lemma digit_runs_digits:
  "g \<in> set (digit_runs run v) \<Longrightarrow> \<forall>c\<in>set run. in_class c digit \<Longrightarrow>
   g \<noteq> [] \<and> (\<forall>c\<in>set g. in_class c digit)"
proof (induction run v rule: digit_runs.induct)
  case (1 run)
  then show ?case by (auto split: if_splits)
next
  case (2 run c cs)
  show ?case
  proof (cases "in_class c digit")
    case True
    with "2.prems" have "g \<in> set (digit_runs (run @ [c]) cs)" by simp
    moreover have "\<forall>x\<in>set (run @ [c]). in_class x digit" using True "2.prems"(2) by simp
    ultimately show ?thesis using "2.IH"(1)[OF True] by blast
  next
    case False
    with "2.prems" have "g \<in> set (if run = [] then [] else [run]) \<or> g \<in> set (digit_runs [] cs)"
      by simp
    then show ?thesis
    proof
      assume "g \<in> set (if run = [] then [] else [run])"
      then show ?thesis using "2.prems"(2) by (auto split: if_splits)
    next
      assume "g \<in> set (digit_runs [] cs)"
      from "2.IH"(2)[OF False this] show ?thesis by simp
    qed
  qed
qed

lemma foldl_decimal:
  "\<forall>c\<in>set g. in_class c digit \<Longrightarrow>
   foldl (\<lambda>n c. n * 10 + digit_value c) a g = foldl (\<lambda>n c. 10 * n + (c - 48)) a g"
  by (induction g arbitrary: a) (simp_all add: in_digit digit_value_def digit_of_def mult.commute)

lemma parseInt_digits:
  assumes "g \<noteq> []" and d: "\<forall>c\<in>set g. in_class c digit"
  shows "parseInt g = Some (decimal g)"
proof -
  obtain c cs where g: "g = c # cs" using assms(1) by (cases g) auto
  from d g have c: "48 \<le> c" "c \<le> 57" by (simp_all add: in_digit)
  have 1: "dropWhile (\<lambda>c. in_class c whitespace) g = g"
    using d g digit_not_whitespace by simp
  have 2: "take 1 g \<noteq> str ''-''" "take 1 g \<noteq> str ''+''" using c g by (auto simp: str_def)
  have 3: "take 2 g \<noteq> str ''0x''" "take 2 g \<noteq> str ''0X''"
  proof -
    have "\<forall>x\<in>set (take 2 g). x \<le> 57" using d by (auto simp: in_digit dest: in_set_takeD)
    then show "take 2 g \<noteq> str ''0x''" "take 2 g \<noteq> str ''0X''" by (auto simp: str_def)
  qed
  have 4: "takeWhile (radix_digit 10) g = g"
    using d by (auto simp: radix_digit_def digit_of_def in_digit)
  show ?thesis
    using assms(1) 1 2 3 by (simp add: parseInt_def Let_def decimal_def foldl_decimal[OF d] 4)
qed

lemma phone_keep_iff: "phone_keep m = (\<not> date_like (m_value m))"
proof (cases "length (digit_runs [] (m_value m)) = 3")
  case True
  let ?gs = "digit_runs [] (m_value m)"
  have "?gs ! 0 \<in> set ?gs" "?gs ! 1 \<in> set ?gs" using True by simp_all
  then have "parseInt (?gs ! 0) = Some (decimal (?gs ! 0))"
    and "parseInt (?gs ! 1) = Some (decimal (?gs ! 1))"
    using digit_runs_digits[of _ "[]" "m_value m"] parseInt_digits by simp_all
  then show ?thesis using True by (simp add: phone_keep_def date_like_def Let_def js_le_def)
next
  case False
  then show ?thesis by (simp add: phone_keep_def date_like_def Let_def)
qed

text \<open>
  \<open>digit_runs\<close> is what the matcher gives for the pattern \<open>/\d+/g\<close>: the texts of the
  successive matches of \<open>\d+\<close> in a string are its maximal digit runs.
\<close>

lemma digit_runs_acc:
  "digit_runs run t =
     (if run @ takeWhile (\<lambda>c. in_class c digit) t = [] then []
      else [run @ takeWhile (\<lambda>c. in_class c digit) t])
     @ digit_runs [] (dropWhile (\<lambda>c. in_class c digit) t)"
proof (induction t arbitrary: run)
  case Nil
  then show ?case by simp
next
  case (Cons c cs)
  show ?case
  proof (cases "in_class c digit")
    case True
    then show ?thesis using Cons[of "run @ [c]"] by simp
  next
    case False
    then show ?thesis by simp
  qed
qed

lemma digit_runs_skip:
  "digit_runs [] (dropWhile (\<lambda>c. \<not> in_class c digit) t) = digit_runs [] t"
  by (induction t) simp_all

lemma star_digit_hd:
  "i \<le> length s \<Longrightarrow>
   \<exists>tl. rmatch (Repeat 0 None (Class digit)) s i
          = (i + length (takeWhile (\<lambda>c. in_class c digit) (drop i s))) # tl"
proof (induction "length s - i" arbitrary: i rule: less_induct)
  case less
  show ?case
  proof (cases "i < length s \<and> in_class (s ! i) digit")
    case True
    then have lt: "i < length s" and d: "in_class (s ! i) digit" by simp_all
    have step: "rmatch (Repeat 0 None (Class digit)) s i
                  = rmatch (Repeat 0 None (Class digit)) s (Suc i) @ [i]"
      by (subst rmatch_Repeat_zero) (use True in simp_all)
    have "length s - Suc i < length s - i" using lt by simp
    from less(1)[OF this] lt obtain tl where
      ih: "rmatch (Repeat 0 None (Class digit)) s (Suc i)
             = (Suc i + length (takeWhile (\<lambda>c. in_class c digit) (drop (Suc i) s))) # tl"
      by auto
    have "drop i s = s ! i # drop (Suc i) s" using lt by (simp add: Cons_nth_drop_Suc)
    then have "length (takeWhile (\<lambda>c. in_class c digit) (drop i s))
                 = Suc (length (takeWhile (\<lambda>c. in_class c digit) (drop (Suc i) s)))"
      using d by simp
    then show ?thesis by (simp add: step ih)
  next
    case False
    then have step: "rmatch (Repeat 0 None (Class digit)) s i = [i]"
      by (subst rmatch_Repeat_zero) auto
    have "takeWhile (\<lambda>c. in_class c digit) (drop i s) = []"
    proof (cases "i < length s")
      case True
      with False have "\<not> in_class (s ! i) digit" by simp
      moreover have "drop i s = s ! i # drop (Suc i) s" using True by (simp add: Cons_nth_drop_Suc)
      ultimately show ?thesis by simp
    next
      case False
      then show ?thesis by simp
    qed
    then show ?thesis by (simp add: step)
  qed
qed

lemma plus_digit:
  "rmatch (rplus (Class digit)) s i =
     (if i < length s \<and> in_class (s ! i) digit
      then rmatch (Repeat 0 None (Class digit)) s (Suc i) else [])"
  unfolding rplus_def by (subst rmatch_Repeat_more) auto

lemma exec_digits:
  "li \<le> length s \<Longrightarrow>
   exec (rplus (Class digit)) s li =
     (let t = dropWhile (\<lambda>c. \<not> in_class c digit) (drop li s)
      in if t = [] then None
         else Some (length s - length t,
                    length s - length t + length (takeWhile (\<lambda>c. in_class c digit) t)))"
proof (induction "length s - li" arbitrary: li rule: less_induct)
  case less
  show ?case
  proof (cases "li < length s")
    case False
    with less.prems have "li = length s" by simp
    then show ?thesis
      by (subst exec.simps, subst exec.simps) (simp add: plus_digit)
  next
    case lt: True
    have dr: "drop li s = s ! li # drop (Suc li) s" using lt by (simp add: Cons_nth_drop_Suc)
    show ?thesis
    proof (cases "in_class (s ! li) digit")
      case True
      from star_digit_hd[of "Suc li" s] lt obtain tl where
        "rmatch (Repeat 0 None (Class digit)) s (Suc li)
           = (Suc li + length (takeWhile (\<lambda>c. in_class c digit) (drop (Suc li) s))) # tl"
        by auto
      then show ?thesis using True lt by (subst exec.simps) (simp add: plus_digit dr)
    next
      case False
      have "length s - Suc li < length s - li" using lt by simp
      from less(1)[OF this] lt
      have "exec (rplus (Class digit)) s (Suc li) =
        (let t = dropWhile (\<lambda>c. \<not> in_class c digit) (drop (Suc li) s)
         in if t = [] then None
            else Some (length s - length t,
                       length s - length t + length (takeWhile (\<lambda>c. in_class c digit) t)))"
        by simp
      then show ?thesis using False lt by (subst exec.simps) (simp add: plus_digit dr)
    qed
  qed
qed

lemma scan_digit_runs:
  "li \<le> length s \<Longrightarrow>
   \<exists>ms. scan (rplus (Class digit)) s li = Some ms \<and>
        map m_value ms = digit_runs [] (drop li s)"
proof (induction "length s - li" arbitrary: li rule: less_induct)
  case less
  define t where "t = dropWhile (\<lambda>c. \<not> in_class c digit) (drop li s)"
  have ex: "exec (rplus (Class digit)) s li =
     (if t = [] then None
      else Some (length s - length t,
                 length s - length t + length (takeWhile (\<lambda>c. in_class c digit) t)))"
    using exec_digits[OF less.prems] by (simp add: t_def Let_def)
  have runs: "digit_runs [] (drop li s) = digit_runs [] t"
    by (simp add: t_def digit_runs_skip)
  show ?case
  proof (cases "t = []")
    case True
    then show ?thesis using ex runs by (simp add: scan_None)
  next
    case False
    define n where "n = length (takeWhile (\<lambda>c. \<not> in_class c digit) (drop li s))"
    define k where "k = length (takeWhile (\<lambda>c. in_class c digit) t)"
    have t_drop: "t = drop (li + n) s"
      unfolding t_def n_def by (simp add: dropWhile_eq_drop add.commute)
    with False have b_le: "li + n < length s" by simp
    then have b: "length s - length t = li + n" by (simp add: t_drop)
    have "in_class (hd t) digit" using False hd_dropWhile[of "\<lambda>c. \<not> in_class c digit" "drop li s"]
      by (simp add: t_def)
    then have k_pos: "0 < k" using False by (cases t) (simp_all add: k_def)
    have k_le: "k \<le> length t" unfolding k_def by (rule length_takeWhile_le)
    then have e_le: "li + n + k \<le> length s" using b_le by (simp add: t_drop)
    have ex': "exec (rplus (Class digit)) s li = Some (li + n, li + n + k)"
      using ex False by (simp add: b k_def)
    have val: "substring s (li + n) (li + n + k) = takeWhile (\<lambda>c. in_class c digit) t"
      by (simp add: substring_def t_drop[symmetric] k_def takeWhile_eq_take[symmetric])
    have "dropWhile (\<lambda>c. in_class c digit) t = drop k t"
      by (simp add: dropWhile_eq_drop k_def)
    also have "\<dots> = drop (li + n + k) s" by (simp add: t_drop add.commute)
    finally have rest: "drop (li + n + k) s = dropWhile (\<lambda>c. in_class c digit) t" by simp
    have "length s - (li + n + k) < length s - li" using k_pos e_le by simp
    from less(1)[OF this e_le] obtain ms where
      ms: "scan (rplus (Class digit)) s (li + n + k) = Some ms"
      and ih: "map m_value ms = digit_runs [] (drop (li + n + k) s)" by blast
    have "digit_runs [] t = takeWhile (\<lambda>c. in_class c digit) t
                             # digit_runs [] (dropWhile (\<lambda>c. in_class c digit) t)"
      using k_pos by (subst digit_runs_acc) (simp add: k_def)
    then show ?thesis
      by (simp add: scan_Some[OF ex'] ms ih runs val rest)
  qed
qed

lemma match_digits:
  "\<exists>ms. scan (rplus (Class digit)) v 0 = Some ms \<and> map m_value ms = digit_runs [] v"
  using scan_digit_runs[of 0 v] by simp

lemma ws_words_dropWhile:
  "ws_words [] (dropWhile (\<lambda>c. in_class c whitespace) cs) = ws_words [] cs"
  by (induction cs) simp_all

lemma split_ws_words: "filter (\<lambda>w. w \<noteq> []) (split_ws piece v) = ws_words piece v"
proof (induction piece v rule: split_ws.induct)
  case (1 piece)
  then show ?case by simp
next
  case (2 piece c cs)
  show ?case
  proof (cases "in_class c whitespace")
    case True
    with "2.IH"(1) show ?thesis by (simp add: ws_words_dropWhile)
  next
    case False
    with "2.IH"(2) show ?thesis by simp
  qed
qed

lemma commonWords_nonempty: "[] \<notin> set commonWords"
  by (simp add: commonWords_def str_def)

lemma commonWords_set:
  "set commonWords = {str ''The'', str ''This'', str ''That'', str ''Will'', str ''May'',
                      str ''June'', str ''July'', str ''August'', str ''March'', str ''April'',
                      str ''January'', str ''February''}"
  by (simp add: commonWords_def)

lemma name_keep_iff:
  "name_keep m = (\<not> (\<exists>w\<in>set (ws_words [] (m_value m)). w \<in> set commonWords))"
proof -
  have "set (ws_words [] (m_value m)) = {w \<in> set (split_ws [] (m_value m)). w \<noteq> []}"
    by (simp add: split_ws_words[symmetric])
  then show ?thesis
    using commonWords_nonempty by (auto simp: name_keep_def Let_def list_ex_iff)
qed

lemma June_example:
  "detectAll (str ''The meeting is in June'') =
     Some (Inr [(str ''email'', []), (str ''phone'', []), (str ''name'', []),
                (str ''address'', []), (str ''ssn'', []), (str ''credit_card'', [])])"
  by code_simp

section \<open>Properties of \<open>anonymize\<close>\<close>

lemma push_matches_eq: "push_matches c ms acc = acc @ map (with_type c) ms"
  by (induction ms arbitrary: acc) (simp_all add: with_type_def)

lemma collect_loop_eq: "collect_loop res acc = acc @ retained res"
  by (induction res arbitrary: acc) (auto simp: retained_def push_matches_eq)

lemma sort_insert_eq:
  "sort_insert by_start_desc x ys = insort_key (\<lambda>m. - int (m_start m)) x ys"
  by (induction ys) (simp_all add: by_start_desc_def)

lemma array_sort_eq: "array_sort by_start_desc xs = sort_key (\<lambda>m. - int (m_start m)) xs"
proof -
  have "sort_insert by_start_desc = insort_key (\<lambda>m. - int (m_start m))"
    by (intro ext) (rule sort_insert_eq)
  then show ?thesis by (simp add: array_sort_def sort_key_def)
qed

text \<open>The list that \<open>array_sort\<close> returns is in descending order of \<open>start\<close>.\<close>

lemma sort_desc_sorted:
  "sorted_wrt (\<lambda>a b. m_start b \<le> m_start a) (sort_key (\<lambda>m. - int (m_start m)) xs)"
proof -
  have "sorted (map (\<lambda>m. - int (m_start m)) (sort_key (\<lambda>m. - int (m_start m)) xs))"
    by (rule sorted_sort_key)
  then show ?thesis by (simp add: sorted_map)
qed

lemma labels_defined: "c \<in> set categories \<Longrightarrow> \<exists>l. map_of piiLabels c = Some l"
  by (auto simp: categories_def patterns_def piiLabels_def)

lemma placeholder_eq:
  "c \<in> set categories \<Longrightarrow> placeholder c = Inr (str ''['' @ toUpperCase (label c) @ str '']'')"
  using labels_defined[of c] by (auto simp: placeholder_def label_def)

lemma replace_loop_eq:
  "\<forall>m\<in>set ms. m_type m \<in> set categories \<Longrightarrow> replace_loop cur ms = Inr (foldl redact cur ms)"
proof (induction ms arbitrary: cur)
  case Nil
  then show ?case by simp
next
  case (Cons m ms)
  then have "m_type m \<in> set categories" by simp
  from placeholder_eq[OF this] Cons show ?case
    by (simp add: redact_def substring_def substring_from_def)
qed

lemma retained_types:
  "fst ` set res \<subseteq> C \<Longrightarrow> \<forall>m\<in>set (retained res). m_type m \<in> C"
  by (auto simp: retained_def with_type_def)

lemma anonymize_eq:
  "anonymize D =
     Some (Inr (foldl redact D (sort_key (\<lambda>m. - int (m_start m))
                  (retained (map (\<lambda>c. (c, matches_of D c)) categories)))))"
proof -
  let ?res = "map (\<lambda>c. (c, matches_of D c)) categories"
  have "fst ` set ?res \<subseteq> set categories" by auto
  from retained_types[OF this]
  have "\<forall>m\<in>set (sort_key (\<lambda>m. - int (m_start m)) (retained ?res)). m_type m \<in> set categories"
    by simp
  from replace_loop_eq[OF this] show ?thesis
    by (simp add: anonymize_def detectAll_eq collect_loop_eq array_sort_eq)
qed

lemma overlap_example:
  "detectAll (str ''555 123 4567 St'') =
     Some (Inr [(str ''email'', []),
                (str ''phone'', [\<lparr>m_value = str ''555 123 4567'', m_start = 0, m_end = 12\<rparr>]),
                (str ''name'', []),
                (str ''address'', [\<lparr>m_value = str ''555 123 4567 St'', m_start = 0, m_end = 15\<rparr>]),
                (str ''ssn'', []), (str ''credit_card'', [])])"
  by code_simp

lemma placeholders_clean:
  "list_all (\<lambda>c. case placeholder c of
                      Inl e \<Rightarrow> False
                    | Inr p \<Rightarrow> list_all (\<lambda>(k, r). scan r p 0 = Some []) patterns) categories"
  by code_simp

lemma anonymize_total: "\<exists>A. anonymize D = Some (Inr A)"
  by (simp add: anonymize_eq)

lemma anonymize_clean:
  assumes "detectAll A = Some (Inr results)"
    and "\<forall>c\<in>set categories. map_of results c = Some []"
  shows "anonymize A = Some (Inr A)"
proof -
  from assms(1) have res: "results = map (\<lambda>c. (c, matches_of A c)) categories"
    by (simp add: detectAll_eq)
  have "matches_of A c = []" if "c \<in> set categories" for c
    using assms(2) that by (simp add: res map_of_graph)
  then have "retained results = []" by (simp add: res retained_def)
  then show ?thesis
    by (simp add: anonymize_def assms(1) collect_loop_eq array_sort_def)
qed

lemma redacted_example:
  "anonymize (str ''a@b.co'') = Some (Inr (str ''[EMAIL ADDRESSES]'')) \<and>
   detectAll (str ''[EMAIL ADDRESSES]'') =
     Some (Inr [(str ''email'', []), (str ''phone'', []), (str ''name'', []),
                (str ''address'', []), (str ''ssn'', []), (str ''credit_card'', [])])"
  by code_simp

section \<open>The properties of the specification\<close>

text \<open>
  C1. For every document \<open>D\<close>, \<open>anonymize(D)\<close> is the string that the following procedure
  gives: collect the retained matches of every category (all of them, duplicates
  included), sort them by \<open>start\<close> in descending order, and fold over that list from \<open>D\<close>,
  replacing at each step the positions from \<open>start\<close> up to \<open>end\<close> of the current string
  by \<open>[LABEL]\<close>, the upper-case label of the category in brackets. Matches with the same
  \<open>start\<close> stay in the order of collection.
\<close>

theorem anonymize_procedure:
  "\<exists>results. detectAll D = Some (Inr results) \<and>
     anonymize D =
       Some (Inr (foldl redact D (sort_key (\<lambda>m. - int (m_start m)) (retained results))))"
  by (simp add: detectAll_eq anonymize_eq)

theorem anonymize_procedure_witness:
  "anonymize (str ''555 123 4567 St'') = Some (Inr (str ''[STREET ADDRESSES] St''))"
proof -
  from anonymize_procedure[of "str ''555 123 4567 St''"] obtain results
    where r: "detectAll (str ''555 123 4567 St'') = Some (Inr results)"
      and a: "anonymize (str ''555 123 4567 St'') =
       Some (Inr (foldl redact (str ''555 123 4567 St'')
          (sort_key (\<lambda>m. - int (m_start m)) (retained results))))" by blast
  from r have res: "results = [(str ''email'', []),
                (str ''phone'', [\<lparr>m_value = str ''555 123 4567'', m_start = 0, m_end = 12\<rparr>]),
                (str ''name'', []),
                (str ''address'', [\<lparr>m_value = str ''555 123 4567 St'', m_start = 0, m_end = 15\<rparr>]),
                (str ''ssn'', []), (str ''credit_card'', [])]"
    by (simp add: overlap_example)
  have "foldl redact (str ''555 123 4567 St'')
          (sort_key (\<lambda>m. - int (m_start m)) (retained [(str ''email'', []),
                (str ''phone'', [\<lparr>m_value = str ''555 123 4567'', m_start = 0, m_end = 12\<rparr>]),
                (str ''name'', []),
                (str ''address'', [\<lparr>m_value = str ''555 123 4567 St'', m_start = 0, m_end = 15\<rparr>]),
                (str ''ssn'', []), (str ''credit_card'', [])]))
        = str ''[STREET ADDRESSES] St''"
    by code_simp
  with a res show ?thesis by simp
qed

text \<open>
  C2. For every document \<open>D\<close>, \<open>detectAll(D)\<close> returns, and for every category \<open>c\<close> of the
  catalog every match \<open>m\<close> of \<open>detectAll(D)[c]\<close> satisfies
  \<open>0 \<le> start < end \<le> length(D)\<close> and \<open>D.substring(start, end) = value\<close>.
\<close>

theorem detectAll_spans:
  "\<exists>results. detectAll D = Some (Inr results) \<and>
     (\<forall>c\<in>set categories. \<exists>ms. map_of results c = Some ms \<and>
        (\<forall>m\<in>set ms. 0 \<le> m_start m \<and> m_start m < m_end m \<and> m_end m \<le> length D \<and>
                     substring D (m_start m) (m_end m) = m_value m))"
proof -
  have "\<exists>ms. map_of (map (\<lambda>c. (c, matches_of D c)) categories) c = Some ms \<and>
        (\<forall>m\<in>set ms. 0 \<le> m_start m \<and> m_start m < m_end m \<and> m_end m \<le> length D \<and>
                     substring D (m_start m) (m_end m) = m_value m)"
    if c: "c \<in> set categories" for c
  proof -
    from detect_matches[OF c, of D] have "\<forall>m\<in>set (matches_of D c). span_ok D m"
      by (auto simp: matches_of_def)
    then show ?thesis using c by (simp add: map_of_graph span_ok_def)
  qed
  then show ?thesis by (simp add: detectAll_eq)
qed

theorem detectAll_spans_witness:
  "str ''email'' \<in> set categories \<and>
   (\<exists>results ms. detectAll (str ''a@b.co a@b.co'') = Some (Inr results) \<and>
      map_of results (str ''email'') = Some ms \<and>
      \<lparr>m_value = str ''a@b.co'', m_start = 7, m_end = 13\<rparr> \<in> set ms \<and>
      (\<forall>m\<in>set ms. m_start m < m_end m \<and> m_end m \<le> length (str ''a@b.co a@b.co'') \<and>
                   substring (str ''a@b.co a@b.co'') (m_start m) (m_end m) = m_value m))"
proof -
  from detectAll_spans[of "str ''a@b.co a@b.co''"] email_category
  obtain results ms where r: "detectAll (str ''a@b.co a@b.co'') = Some (Inr results)"
    and ms: "map_of results (str ''email'') = Some ms"
    and ok: "\<forall>m\<in>set ms. m_start m < m_end m \<and> m_end m \<le> length (str ''a@b.co a@b.co'') \<and>
                substring (str ''a@b.co a@b.co'') (m_start m) (m_end m) = m_value m"
    by fastforce
  from r ms have "\<lparr>m_value = str ''a@b.co'', m_start = 7, m_end = 13\<rparr> \<in> set ms"
    by (auto simp: detectAll_example)
  with r ms ok email_category show ?thesis by blast
qed

text \<open>
  C3. For every document \<open>D\<close> and every category \<open>c\<close> of the catalog, the sequence
  \<open>detectAll(D)[c]\<close> is strictly increasing in \<open>start\<close>, and no match starts before the
  end of a match that precedes it; in particular each match starts at or after the end of
  the one just before it.
\<close>

theorem detectAll_ordered:
  "\<exists>results. detectAll D = Some (Inr results) \<and>
     (\<forall>c\<in>set categories. \<exists>ms. map_of results c = Some ms \<and>
        sorted_wrt (\<lambda>a b. m_start a < m_start b) ms \<and>
        sorted_wrt (\<lambda>a b. m_end a \<le> m_start b) ms \<and>
        (\<forall>i. Suc i < length ms \<longrightarrow> m_start (ms ! i) < m_start (ms ! Suc i) \<and>
                                    m_end (ms ! i) \<le> m_start (ms ! Suc i)))"
proof -
  have "\<exists>ms. map_of (map (\<lambda>c. (c, matches_of D c)) categories) c = Some ms \<and>
        sorted_wrt (\<lambda>a b. m_start a < m_start b) ms \<and>
        sorted_wrt (\<lambda>a b. m_end a \<le> m_start b) ms \<and>
        (\<forall>i. Suc i < length ms \<longrightarrow> m_start (ms ! i) < m_start (ms ! Suc i) \<and>
                                    m_end (ms ! i) \<le> m_start (ms ! Suc i))"
    if c: "c \<in> set categories" for c
  proof -
    from detect_matches[OF c, of D] have s: "sorted_wrt apart (matches_of D c)"
      by (auto simp: matches_of_def)
    have 1: "sorted_wrt (\<lambda>a b. m_start a < m_start b) (matches_of D c)"
      by (rule sorted_wrt_mono_rel[OF _ s]) (simp add: apart_def)
    have 2: "sorted_wrt (\<lambda>a b. m_end a \<le> m_start b) (matches_of D c)"
      by (rule sorted_wrt_mono_rel[OF _ s]) (simp add: apart_def)
    have 3: "\<forall>i. Suc i < length (matches_of D c) \<longrightarrow>
               m_start (matches_of D c ! i) < m_start (matches_of D c ! Suc i) \<and>
               m_end (matches_of D c ! i) \<le> m_start (matches_of D c ! Suc i)"
      using s by (auto simp: sorted_wrt_iff_nth_less apart_def)
    show ?thesis using c 1 2 3 by (simp add: map_of_graph)
  qed
  then show ?thesis by (simp add: detectAll_eq)
qed

theorem detectAll_ordered_witness:
  "str ''email'' \<in> set categories \<and>
   (\<exists>results ms. detectAll (str ''a@b.co a@b.co'') = Some (Inr results) \<and>
      map_of results (str ''email'') = Some ms \<and> Suc 0 < length ms \<and>
      m_start (ms ! 0) < m_start (ms ! Suc 0) \<and> m_end (ms ! 0) \<le> m_start (ms ! Suc 0))"
proof -
  from detectAll_ordered[of "str ''a@b.co a@b.co''"] email_category
  obtain results ms where r: "detectAll (str ''a@b.co a@b.co'') = Some (Inr results)"
    and ms: "map_of results (str ''email'') = Some ms"
    and ok: "\<forall>i. Suc i < length ms \<longrightarrow> m_start (ms ! i) < m_start (ms ! Suc i) \<and>
                                         m_end (ms ! i) \<le> m_start (ms ! Suc i)"
    by fastforce
  from r ms have "Suc 0 < length ms" by (auto simp: detectAll_example)
  with r ms ok email_category show ?thesis by blast
qed

text \<open>
  C4. For every document \<open>D\<close>, \<open>getSummary(D)\<close> returns a mapping whose keys are the
  categories of the catalog, in catalog order, and whose value at each category \<open>c\<close> is the
  length of \<open>detectAll(D)[c]\<close>; a category without retained matches has the value 0.
\<close>

theorem getSummary_counts:
  "\<exists>results summary. detectAll D = Some (Inr results) \<and> getSummary D = Some (Inr summary) \<and>
     map fst summary = categories \<and>
     (\<forall>c\<in>set categories. \<exists>ms. map_of results c = Some ms \<and>
                                  map_of summary c = Some (length ms))"
  by (simp add: detectAll_eq getSummary_eq map_of_graph comp_def)

theorem getSummary_counts_witness:
  "str ''email'' \<in> set categories \<and>
   (\<exists>summary. getSummary (str ''a@b.co a@b.co'') = Some (Inr summary) \<and>
      map fst summary = categories \<and> map_of summary (str ''email'') = Some 2)"
proof -
  from getSummary_counts[of "str ''a@b.co a@b.co''"] email_category
  obtain results summary ms where r: "detectAll (str ''a@b.co a@b.co'') = Some (Inr results)"
    and s: "getSummary (str ''a@b.co a@b.co'') = Some (Inr summary)"
    and k: "map fst summary = categories"
    and ms: "map_of results (str ''email'') = Some ms"
    and n: "map_of summary (str ''email'') = Some (length ms)"
    by fastforce
  from r ms have "length ms = 2" by (auto simp: detectAll_example)
  with s k n email_category show ?thesis by simp
qed

text \<open>
  C5. The phone filter drops a match exactly when the maximal digit runs of its value are
  three in number, the first denotes an integer of at most 12 and the second an integer
  of at most 31; every other match is kept as it is, in the same order.
\<close>

theorem filterPhoneFalsePositives_date_like:
  "filterPhoneFalsePositives matches = filter (\<lambda>m. \<not> date_like (m_value m)) matches"
proof -
  have "phone_keep = (\<lambda>m. \<not> date_like (m_value m))"
    by (rule ext) (rule phone_keep_iff)
  then show ?thesis by (simp add: filterPhoneFalsePositives_def)
qed

theorem filterPhoneFalsePositives_date_like_witness:
  "date_like (str ''010 020 1234'') \<and> \<not> date_like (str ''555-123-4567'') \<and>
   \<not> date_like (str ''+1 (010) 020-1234'') \<and>
   filterPhoneFalsePositives
     [\<lparr>m_value = str ''010 020 1234'', m_start = 0, m_end = 12\<rparr>,
      \<lparr>m_value = str ''555-123-4567'', m_start = 13, m_end = 25\<rparr>,
      \<lparr>m_value = str ''+1 (010) 020-1234'', m_start = 26, m_end = 43\<rparr>]
   = [\<lparr>m_value = str ''555-123-4567'', m_start = 13, m_end = 25\<rparr>,
      \<lparr>m_value = str ''+1 (010) 020-1234'', m_start = 26, m_end = 43\<rparr>]"
proof -
  have 1: "date_like (str ''010 020 1234'')" by code_simp
  have 2: "\<not> date_like (str ''555-123-4567'')" by code_simp
  have 3: "\<not> date_like (str ''+1 (010) 020-1234'')" by code_simp
  from 1 2 3 show ?thesis
    by (simp add: filterPhoneFalsePositives_date_like)
qed

text \<open>
  C6. The name filter drops a match exactly when one of the words of its value, the
  maximal runs without white space, is a member of the stoplist; every other match is
  kept as it is. For the document \<open>The meeting is in June\<close>, \<open>detectAll\<close> returns no
  name match.
\<close>

theorem filterNameFalsePositives_stoplist:
  "filterNameFalsePositives matches =
     filter (\<lambda>m. \<not> (\<exists>w\<in>set (ws_words [] (m_value m)).
                      w \<in> {str ''The'', str ''This'', str ''That'', str ''Will'', str ''May'',
                           str ''June'', str ''July'', str ''August'', str ''March'',
                           str ''April'', str ''January'', str ''February''})) matches \<and>
   (\<exists>results. detectAll (str ''The meeting is in June'') = Some (Inr results) \<and>
      map_of results (str ''name'') = Some [])"
proof -
  have "name_keep = (\<lambda>m. \<not> (\<exists>w\<in>set (ws_words [] (m_value m)). w \<in> set commonWords))"
    by (rule ext) (rule name_keep_iff)
  then have "filterNameFalsePositives matches =
     filter (\<lambda>m. \<not> (\<exists>w\<in>set (ws_words [] (m_value m)). w \<in> set commonWords)) matches"
    by (simp add: filterNameFalsePositives_def)
  moreover have "map_of [(str ''email'', []), (str ''phone'', []), (str ''name'', []),
                (str ''address'', []), (str ''ssn'', []), (str ''credit_card'', [])] (str ''name'') = Some ([] :: pii_match list)"
    by (simp add: str_def)
  ultimately show ?thesis unfolding commonWords_set using June_example by blast
qed

theorem filterNameFalsePositives_stoplist_witness:
  "filterNameFalsePositives
     [\<lparr>m_value = str ''John Smith'', m_start = 0, m_end = 10\<rparr>,
      \<lparr>m_value = str ''Dr. May  Smith'', m_start = 11, m_end = 25\<rparr>,
      \<lparr>m_value = str ''Mary Juneau'', m_start = 26, m_end = 37\<rparr>]
   = [\<lparr>m_value = str ''John Smith'', m_start = 0, m_end = 10\<rparr>,
      \<lparr>m_value = str ''Mary Juneau'', m_start = 26, m_end = 37\<rparr>] \<and>
   ws_words [] (str ''Dr. May  Smith'') = [str ''Dr.'', str ''May'', str ''Smith'']"
proof -
  have 1: "ws_words [] (str ''John Smith'') = [str ''John'', str ''Smith'']" by code_simp
  have 2: "ws_words [] (str ''Dr. May  Smith'') = [str ''Dr.'', str ''May'', str ''Smith'']"
    by code_simp
  have 3: "ws_words [] (str ''Mary Juneau'') = [str ''Mary'', str ''Juneau'']" by code_simp
  have "filterNameFalsePositives
     [\<lparr>m_value = str ''John Smith'', m_start = 0, m_end = 10\<rparr>,
      \<lparr>m_value = str ''Dr. May  Smith'', m_start = 11, m_end = 25\<rparr>,
      \<lparr>m_value = str ''Mary Juneau'', m_start = 26, m_end = 37\<rparr>]
   = [\<lparr>m_value = str ''John Smith'', m_start = 0, m_end = 10\<rparr>,
      \<lparr>m_value = str ''Mary Juneau'', m_start = 26, m_end = 37\<rparr>]"
    using filterNameFalsePositives_stoplist[of
     "[\<lparr>m_value = str ''John Smith'', m_start = 0, m_end = 10\<rparr>,
      \<lparr>m_value = str ''Dr. May  Smith'', m_start = 11, m_end = 25\<rparr>,
      \<lparr>m_value = str ''Mary Juneau'', m_start = 26, m_end = 37\<rparr>]"]
    by (simp add: 1 2 3) (simp add: str_def)
  with 2 show ?thesis by simp
qed

text \<open>
  C7. For every document \<open>D\<close> and every category \<open>c\<close> of the catalog, the list
  \<open>getUniqueValues(D)[c]\<close> has no duplicates, holds exactly the values of the matches of
  \<open>detectAll(D)[c]\<close>, and lists them in the order in which they occur first; matches at
  different positions with the same text give one entry.
\<close>

theorem getUniqueValues_first_seen:
  "\<exists>results unique. detectAll D = Some (Inr results) \<and>
     getUniqueValues D = Some (Inr unique) \<and> map fst unique = categories \<and>
     (\<forall>c\<in>set categories. \<exists>ms u. map_of results c = Some ms \<and> map_of unique c = Some u \<and>
        distinct u \<and> set u = set (map m_value ms) \<and>
        sorted_wrt (\<lambda>a b. first_index (map m_value ms) a < first_index (map m_value ms) b) u)"
proof -
  have "\<exists>ms u. map_of (map (\<lambda>c. (c, matches_of D c)) categories) c = Some ms \<and>
          map_of (map (\<lambda>c. (c, set_add_all [] (map m_value (matches_of D c)))) categories) c
            = Some u \<and>
          distinct u \<and> set u = set (map m_value ms) \<and>
          sorted_wrt (\<lambda>a b. first_index (map m_value ms) a < first_index (map m_value ms) b) u"
    if c: "c \<in> set categories" for c
    using set_add_all_first_seen[of "map m_value (matches_of D c)"] c
    by (simp add: map_of_graph)
  then show ?thesis by (simp add: detectAll_eq getUniqueValues_eq comp_def)
qed

theorem getUniqueValues_first_seen_witness:
  "str ''email'' \<in> set categories \<and>
   (\<exists>results unique ms. detectAll (str ''a@b.co a@b.co'') = Some (Inr results) \<and>
      getUniqueValues (str ''a@b.co a@b.co'') = Some (Inr unique) \<and>
      map_of results (str ''email'') = Some ms \<and> length ms = 2 \<and>
      map_of unique (str ''email'') = Some [str ''a@b.co''])"
proof -
  from getUniqueValues_first_seen[of "str ''a@b.co a@b.co''"] email_category
  obtain results unique ms u where r: "detectAll (str ''a@b.co a@b.co'') = Some (Inr results)"
    and q: "getUniqueValues (str ''a@b.co a@b.co'') = Some (Inr unique)"
    and ms: "map_of results (str ''email'') = Some ms"
    and u: "map_of unique (str ''email'') = Some u"
    and d: "distinct u" and s: "set u = set (map m_value ms)"
    by fastforce
  from r ms have v: "ms = [\<lparr>m_value = str ''a@b.co'', m_start = 0, m_end = 6\<rparr>,
                           \<lparr>m_value = str ''a@b.co'', m_start = 7, m_end = 13\<rparr>]"
    by (auto simp: detectAll_example)
  with s have "set u = {str ''a@b.co''}" by simp
  with d have "u = [str ''a@b.co'']"
    by (metis distinct_singleton insert_not_empty list.exhaust list.set_cases
        set_empty singleton_iff distinct.simps(2) list.set_intros(1) list.set_intros(2))
  with r q ms u v email_category show ?thesis by auto
qed

text \<open>
  C8. The placeholder of each category, scanned as a document, has no match of any of the
  six patterns; and for every document \<open>D\<close>, \<open>anonymize(D)\<close> returns a string \<open>A\<close> such that,
  if \<open>detectAll(A)\<close> has no retained match in any category, then
  \<open>anonymize(A) = A\<close>.
\<close>

theorem anonymize_idempotent_when_clean:
  "(\<forall>c\<in>set categories. \<exists>p. placeholder c = Inr p \<and> (\<forall>(k, r)\<in>set patterns. scan r p 0 = Some [])) \<and>
   (\<exists>A. anonymize D = Some (Inr A) \<and>
      ((\<exists>results. detectAll A = Some (Inr results) \<and>
          (\<forall>c\<in>set categories. map_of results c = Some [])) \<longrightarrow>
       anonymize A = Some (Inr A)))"
proof -
  have 1: "\<forall>c\<in>set categories. \<exists>p. placeholder c = Inr p \<and>
             (\<forall>(k, r)\<in>set patterns. scan r p 0 = Some [])"
  proof
    fix c assume "c \<in> set categories"
    with placeholders_clean
    have "case placeholder c of Inl e \<Rightarrow> False
          | Inr p \<Rightarrow> list_all (\<lambda>(k, r). scan r p 0 = Some []) patterns"
      by (simp add: list_all_iff)
    then show "\<exists>p. placeholder c = Inr p \<and> (\<forall>(k, r)\<in>set patterns. scan r p 0 = Some [])"
      by (cases "placeholder c") (simp_all add: list_all_iff)
  qed
  from anonymize_total obtain A where A: "anonymize D = Some (Inr A)" by blast
  with 1 anonymize_clean show ?thesis by blast
qed

theorem anonymize_idempotent_when_clean_witness:
  "anonymize (str ''a@b.co'') = Some (Inr (str ''[EMAIL ADDRESSES]'')) \<and>
   (\<exists>results. detectAll (str ''[EMAIL ADDRESSES]'') = Some (Inr results) \<and>
      (\<forall>c\<in>set categories. map_of results c = Some [])) \<and>
   anonymize (str ''[EMAIL ADDRESSES]'') = Some (Inr (str ''[EMAIL ADDRESSES]''))"
proof -
  have clean: "\<exists>results. detectAll (str ''[EMAIL ADDRESSES]'') = Some (Inr results) \<and>
      (\<forall>c\<in>set categories. map_of results c = Some [])"
    using redacted_example by (simp add: categories_def patterns_def str_def)
  from anonymize_idempotent_when_clean[of "str ''a@b.co''"] redacted_example clean
  show ?thesis by auto
qed

text \<open>
  C9. A category name outside the catalog for which \<open>detect\<close> does not return the empty
  array: \<open>constructor\<close> is not an own property of \<open>this.patterns\<close> but is found in
  \<open>Object.prototype\<close>, so the guard of \<open>detect\<close> lets it pass and the call of \<open>exec\<close>
  throws, on the empty document as on any other.
\<close>

theorem detect_inherited_name_throws:
  "str ''constructor'' \<notin> set categories \<and>
   detect [] (str ''constructor'') = Some (Inl TypeError)"
  by (simp add: detect_def patterns_get_def categories_def patterns_def object_prototype_def str_def)

text \<open>
  C10. For each of the six patterns of the catalog and every document, a match of the
  pattern is never empty, so a successful \<open>exec\<close> ends after the position at which it
  resumed; the scan loop of \<open>detect\<close> returns, and the number of its matches (the
  iterations that push a match) is at most the length of the document.
\<close>

theorem scan_terminates:
  assumes "(c, r) \<in> set patterns"
  shows "(\<forall>i. \<forall>j\<in>set (rmatch r D i). i < j) \<and>
         (\<forall>lastIndex b e. exec r D lastIndex = Some (b, e) \<longrightarrow> lastIndex < e) \<and>
         (\<exists>matches. scan r D 0 = Some matches \<and> length matches \<le> length D)"
proof -
  note pos = minlen_patterns[OF assms]
  have 1: "\<forall>i. \<forall>j\<in>set (rmatch r D i). i < j"
  proof (intro allI ballI)
    fix i j assume "j \<in> set (rmatch r D i)"
    from rmatch_lower[OF this] pos show "i < j" by simp
  qed
  have 2: "\<forall>lastIndex b e. exec r D lastIndex = Some (b, e) \<longrightarrow> lastIndex < e"
  proof (intro allI impI)
    fix lastIndex b e assume "exec r D lastIndex = Some (b, e)"
    from exec_progress[OF this pos] show "lastIndex < e" by simp
  qed
  from scan_total[OF pos] obtain ms where ms: "scan r D 0 = Some ms" by blast
  from scan_length[OF pos ms] have "length ms \<le> length D" by simp
  with 1 2 ms show ?thesis by blast
qed

theorem scan_terminates_witness:
  "(str ''ssn'', ssn_re) \<in> set patterns \<and>
   exec ssn_re (str ''id 123-45-6789'') 0 = Some (3, 14) \<and> (0::nat) < 14 \<and>
   (\<exists>matches. scan ssn_re (str ''id 123-45-6789'') 0 = Some matches \<and>
      length matches \<le> length (str ''id 123-45-6789''))"
proof -
  have p: "(str ''ssn'', ssn_re) \<in> set patterns" by (simp add: patterns_def)
  from scan_terminates[OF p, of "str ''id 123-45-6789''"] ssn_example p
  show ?thesis by blast
qed

end
